theory Spec2Isabelle
  imports Main "HOL-Library.FSet" "HOL-Library.Sublist" "HOL-Library.Char_ord"
    "HOL-Library.List_Lexorder"
begin

section \<open>Data model\<close>

text \<open>
  The program is the class \<open>LureNotifier\<close> of \<open>lastname_firstInitial_challenge.py\<close>.
  User identifiers, terms and domains are Python \<open>str\<close>, here \<open>string\<close>.

  A Python \<open>dict\<close> that the code iterates over (\<open>USER_TO_MANAGER_DICT\<close>, \<open>SUBSCRIPTIONS\<close>)
  is an association list in insertion order; a dict has each key once, so the lists that
  stand for real inputs have distinct keys. A dict that the code only indexes
  (\<open>user_hierarchy_map\<close>, \<open>term_notifications\<close>, \<open>domain_notifications\<close>) is a map.
  A Python \<open>set\<close> is finite, hence an \<open>fset\<close>.
\<close>

type_synonym chain_map = "string \<rightharpoonup> string fset"
type_synonym notifications_map = "string \<rightharpoonup> string fset"
type_synonym lure = "string \<times> string list"

record LureNotifier =
  TARGET_DOMAINS :: "string list"
  SUBSCRIPTIONS :: "(string \<times> string list) list"
  USER_TO_MANAGER_DICT :: "(string \<times> string) list"
  USER_REPORTS_CHAIN_MAP :: chain_map
  TERM_NOTIFICATIONS_MAP :: notifications_map

text \<open>\<open>d.get(k, dflt)\<close>: the stored value, or the default when the key is absent.\<close>

definition dict_get :: "('k \<rightharpoonup> 'v) \<Rightarrow> 'k \<Rightarrow> 'v \<Rightarrow> 'v" where
  "dict_get d k dflt = (case d k of None \<Rightarrow> dflt | Some v \<Rightarrow> v)"

section \<open>Construction\<close>

subsection \<open>\<open>_build_user_reports_chain_map\<close>\<close>

text \<open>
  \<open>gather_subordinates\<close> is the nested function of lines 20 to 30. It recurses through the
  reporting relation and writes the memo table \<open>user_hierarchy_map\<close> only after its loop,
  so on a cyclic manager map it never returns. The model threads the memo table through
  every call and counts the depth of the call stack with a fuel argument: \<open>None\<close> is a
  computation that needs a deeper stack than the fuel allows. \<open>gather_loop\<close> is the
  \<open>for user, manager in self.USER_TO_MANAGER_DICT.items()\<close> loop of lines 25 to 28, with
  the items still to visit, the set \<open>subordinates\<close> built so far and the memo table.
\<close>

fun gather_subordinates ::
    "nat \<Rightarrow> (string \<times> string) list \<Rightarrow> chain_map \<Rightarrow> string \<Rightarrow> (string fset \<times> chain_map) option"
  and gather_loop ::
    "nat \<Rightarrow> (string \<times> string) list \<Rightarrow> (string \<times> string) list \<Rightarrow> string \<Rightarrow> string fset
       \<Rightarrow> chain_map \<Rightarrow> (string fset \<times> chain_map) option"
where
  "gather_subordinates 0 items user_hierarchy_map user_id = None"
| "gather_subordinates (Suc fuel) items user_hierarchy_map user_id =
     (case user_hierarchy_map user_id of
        Some cached \<Rightarrow> Some (cached, user_hierarchy_map)
      | None \<Rightarrow>
          (case gather_loop fuel items items user_id {||} user_hierarchy_map of
             None \<Rightarrow> None
           | Some (subordinates, m) \<Rightarrow> Some (subordinates, m(user_id \<mapsto> subordinates))))"
| "gather_loop fuel items [] user_id subordinates user_hierarchy_map =
     Some (subordinates, user_hierarchy_map)"
| "gather_loop fuel items ((user, manager) # rest) user_id subordinates user_hierarchy_map =
     (if manager = user_id then
        (case gather_subordinates fuel items user_hierarchy_map user of
           None \<Rightarrow> None
         | Some (below, m) \<Rightarrow>
             gather_loop fuel items rest user_id (finsert user subordinates |\<union>| below) m)
      else gather_loop fuel items rest user_id subordinates user_hierarchy_map)"

text \<open>
  The driver loop of lines 32 and 33, \<open>for user in self.USER_TO_MANAGER_DICT\<close>, visits the
  keys of the manager map and discards what each call returns.
\<close>

fun build_loop ::
    "nat \<Rightarrow> (string \<times> string) list \<Rightarrow> string list \<Rightarrow> chain_map \<Rightarrow> chain_map option" where
  "build_loop fuel items [] user_hierarchy_map = Some user_hierarchy_map"
| "build_loop fuel items (user # rest) user_hierarchy_map =
     (case gather_subordinates fuel items user_hierarchy_map user of
        None \<Rightarrow> None
      | Some (below, m) \<Rightarrow> build_loop fuel items rest m)"

definition build_user_reports_chain_map ::
    "nat \<Rightarrow> (string \<times> string) list \<Rightarrow> chain_map option" where
  "build_user_reports_chain_map fuel team_hierarchy =
     build_loop fuel team_hierarchy (map fst team_hierarchy) Map.empty"

subsection \<open>\<open>_precompute_notifications\<close>\<close>

text \<open>
  The body of the inner loop, lines 43 to 46: the entry of the term is created empty when
  it is absent, then receives \<open>user_id\<close> and the users of
  \<open>user_hierarchy_map.get(user_id, set())\<close>.
\<close>

definition add_notification ::
    "chain_map \<Rightarrow> string \<Rightarrow> string \<Rightarrow> notifications_map \<Rightarrow> notifications_map" where
  "add_notification user_hierarchy_map user_id trm term_notifications =
     (let current = (case term_notifications trm of None \<Rightarrow> {||} | Some users \<Rightarrow> users)
      in term_notifications
           (trm \<mapsto> finsert user_id current |\<union>| dict_get user_hierarchy_map user_id {||}))"

fun terms_loop ::
    "chain_map \<Rightarrow> string \<Rightarrow> string list \<Rightarrow> notifications_map \<Rightarrow> notifications_map" where
  "terms_loop user_hierarchy_map user_id [] term_notifications = term_notifications"
| "terms_loop user_hierarchy_map user_id (trm # rest) term_notifications =
     terms_loop user_hierarchy_map user_id rest
       (add_notification user_hierarchy_map user_id trm term_notifications)"

fun subscriptions_loop ::
    "chain_map \<Rightarrow> (string \<times> string list) list \<Rightarrow> notifications_map \<Rightarrow> notifications_map" where
  "subscriptions_loop user_hierarchy_map [] term_notifications = term_notifications"
| "subscriptions_loop user_hierarchy_map ((user_id, terms) # rest) term_notifications =
     subscriptions_loop user_hierarchy_map rest
       (terms_loop user_hierarchy_map user_id terms term_notifications)"

definition precompute_notifications ::
    "(string \<times> string list) list \<Rightarrow> chain_map \<Rightarrow> notifications_map" where
  "precompute_notifications subscriptions user_hierarchy_map =
     subscriptions_loop user_hierarchy_map subscriptions Map.empty"

subsection \<open>\<open>__init__\<close>\<close>

definition LureNotifier_init ::
    "nat \<Rightarrow> string list \<Rightarrow> (string \<times> string list) list \<Rightarrow> (string \<times> string) list
       \<Rightarrow> LureNotifier option" where
  "LureNotifier_init fuel domains subscriptions team_hierarchy =
     (case build_user_reports_chain_map fuel team_hierarchy of
        None \<Rightarrow> None
      | Some chain \<Rightarrow>
          Some \<lparr> TARGET_DOMAINS = domains,
                 SUBSCRIPTIONS = subscriptions,
                 USER_TO_MANAGER_DICT = team_hierarchy,
                 USER_REPORTS_CHAIN_MAP = chain,
                 TERM_NOTIFICATIONS_MAP = precompute_notifications subscriptions chain \<rparr>)"

section \<open>Queries\<close>

subsection \<open>\<open>identify_lures\<close>\<close>

definition TERMS :: "string list" where
  "TERMS = [''cisco'', ''gmail'', ''login'', ''mail'', ''paying'', ''paypal'', ''.gov'']"

text \<open>
  Domain names are ASCII. On ASCII text \<open>str.lower\<close> sends \<open>A\<close> to \<open>Z\<close> to \<open>a\<close> to \<open>z\<close> and keeps
  every other character; letters beyond ASCII are outside this model. The theorems about
  \<open>identify_lures\<close> are stated in terms of \<open>lower\<close>.
  \<open>term in lower_domain\<close> on strings is the test for a contiguous substring, \<open>sublist\<close>.
\<close>

definition lower_char :: "char \<Rightarrow> char" where
  "lower_char c =
     (case map_of (zip ''ABCDEFGHIJKLMNOPQRSTUVWXYZ'' ''abcdefghijklmnopqrstuvwxyz'') c of
        None \<Rightarrow> c
      | Some l \<Rightarrow> l)"

definition lower :: "string \<Rightarrow> string" where
  "lower s = map lower_char s"

fun identify_loop :: "string list \<Rightarrow> lure list \<Rightarrow> lure list" where
  "identify_loop [] lures = lures"
| "identify_loop (domain # rest) lures =
     (let lower_domain = lower domain;
          matched_terms = filter (\<lambda>trm. sublist trm lower_domain) TERMS
      in if length matched_terms \<ge> 2
         then identify_loop rest (lures @ [(domain, matched_terms)])
         else identify_loop rest lures)"

text \<open>The method returns the lures and leaves the object with \<open>TARGET_DOMAINS\<close> overwritten.\<close>

definition identify_lures :: "LureNotifier \<Rightarrow> string list \<Rightarrow> lure list \<times> LureNotifier" where
  "identify_lures self domains =
     (identify_loop domains [], self\<lparr>TARGET_DOMAINS := domains\<rparr>)"

subsection \<open>\<open>notify\<close>\<close>

text \<open>
  \<open>list(users_to_notify)\<close> lists every member of the set once, in an order Python leaves
  open. The model lists them in ascending order; everything proved below about such a list
  is about its members and its freedom from duplicates, never about the order.
\<close>

definition list_of_set :: "string fset \<Rightarrow> string list" where
  "list_of_set users = sorted_list_of_fset users"

fun users_loop :: "notifications_map \<Rightarrow> string list \<Rightarrow> string fset \<Rightarrow> string fset" where
  "users_loop term_notifications [] users_to_notify = users_to_notify"
| "users_loop term_notifications (trm # rest) users_to_notify =
     users_loop term_notifications rest
       (users_to_notify |\<union>| dict_get term_notifications trm {||})"

fun notify_loop ::
    "notifications_map \<Rightarrow> lure list \<Rightarrow> (string \<rightharpoonup> string list) \<Rightarrow> (string \<rightharpoonup> string list)" where
  "notify_loop term_notifications [] domain_notifications = domain_notifications"
| "notify_loop term_notifications ((domain, terms) # rest) domain_notifications =
     (let users_to_notify = users_loop term_notifications terms {||}
      in notify_loop term_notifications rest
           (domain_notifications(domain \<mapsto> list_of_set users_to_notify)))"

definition notify :: "LureNotifier \<Rightarrow> lure list \<Rightarrow> (string \<rightharpoonup> string list) \<times> LureNotifier" where
  "notify self lures = (notify_loop (TERM_NOTIFICATIONS_MAP self) lures Map.empty, self)"

subsection \<open>Sequences of queries\<close>

datatype call = Identify_lures "string list" | Notify "lure list"

fun perform :: "LureNotifier \<Rightarrow> call \<Rightarrow> LureNotifier" where
  "perform self (Identify_lures domains) = snd (identify_lures self domains)"
| "perform self (Notify lures) = snd (notify self lures)"

fun run :: "LureNotifier \<Rightarrow> call list \<Rightarrow> LureNotifier" where
  "run self [] = self"
| "run self (c # cs) = run (perform self c) cs"

text \<open>The argument of the last \<open>identify_lures\<close> call of a sequence, if there is one.\<close>

fun last_domains :: "string list \<Rightarrow> call list \<Rightarrow> string list" where
  "last_domains d [] = d"
| "last_domains d (Identify_lures domains # cs) = last_domains domains cs"
| "last_domains d (Notify lures # cs) = last_domains d cs"

section \<open>Loading subscriptions\<close>

text \<open>
  The body of the loop of \<open>load_user_subscriptions\<close>, lines 137 to 139: a user not yet in
  the dict enters it, last, with the one term; a user already there has the term appended.
\<close>

fun add_subscription ::
    "(string \<times> string list) list \<Rightarrow> string \<Rightarrow> string \<Rightarrow> (string \<times> string list) list" where
  "add_subscription [] user_id trm = [(user_id, [trm])]"
| "add_subscription ((u, terms) # rest) user_id trm =
     (if u = user_id then (u, terms @ [trm]) # rest
      else (u, terms) # add_subscription rest user_id trm)"

section \<open>Vocabulary of the specification\<close>

text \<open>
  \<open>reports_below h u\<close>: the users of whom \<open>u\<close> is a direct or transitive manager, where a pair
  \<open>(v, m)\<close> of the manager map \<open>h\<close> says that \<open>v\<close> reports to \<open>m\<close>.
  \<open>subscribers s t\<close>: the users whose subscription list holds \<open>t\<close>.
\<close>

definition reports_below :: "(string \<times> string) list \<Rightarrow> string \<Rightarrow> string set" where
  "reports_below team_hierarchy u = {v. (v, u) \<in> (set team_hierarchy)\<^sup>+}"

definition subscribers :: "(string \<times> string list) list \<Rightarrow> string \<Rightarrow> string set" where
  "subscribers subscriptions t = {u. \<exists>terms. (u, terms) \<in> set subscriptions \<and> t \<in> set terms}"

text \<open>
  \<open>reports_via h rest u\<close>: the direct reports of \<open>u\<close> listed in \<open>rest\<close>, with everybody below
  them. \<open>memo_ok h m\<close>: every entry of the memo table \<open>m\<close> is the full set of reports of its user.
\<close>

definition memo_ok :: "(string \<times> string) list \<Rightarrow> chain_map \<Rightarrow> bool" where
  "memo_ok items m = (\<forall>u s. m u = Some s \<longrightarrow> fset s = reports_below items u)"

definition reports_via :: "(string \<times> string) list \<Rightarrow> (string \<times> string) list \<Rightarrow> string \<Rightarrow> string set" where
  "reports_via items rest uid =
     {v. \<exists>u. (u, uid) \<in> set rest \<and> (v = u \<or> v \<in> reports_below items u)}"

section \<open>Lure detection\<close>

lemma identify_loop_eq:
  "identify_loop domains lures =
     lures @ map (\<lambda>d. (d, filter (\<lambda>t. sublist t (lower d)) TERMS))
               (filter (\<lambda>d. 2 \<le> length (filter (\<lambda>t. sublist t (lower d)) TERMS)) domains)"
  by (induction domains arbitrary: lures) (simp_all add: Let_def)

lemma distinct_TERMS: "distinct TERMS"
  by (simp add: TERMS_def)

lemma length_matched:
  "length (filter (\<lambda>t. sublist t s) TERMS) = card {t \<in> set TERMS. sublist t s}"
proof -
  have "{t \<in> set TERMS. sublist t s} = {t. sublist t s} \<inter> set TERMS" by auto
  then show ?thesis
    using distinct_length_filter [OF distinct_TERMS, of "\<lambda>t. sublist t s"] by simp
qed

text \<open>
  C4. The lures are the input domains, in input order, that have at least two of the seven
  vocabulary terms as substrings of their lower-cased form, each paired with the matching
  terms in vocabulary order; every other domain is left out, and no term is listed twice.
\<close>

theorem identify_lures_spec:
  "fst (identify_lures self domains) =
     map (\<lambda>d. (d, filter (\<lambda>t. sublist t (lower d)) TERMS))
       (filter (\<lambda>d. 2 \<le> card {t \<in> set TERMS. sublist t (lower d)}) domains)
   \<and> length TERMS = 7 \<and> distinct TERMS
   \<and> distinct (filter (\<lambda>t. sublist t (lower d)) TERMS)"
  by (simp add: identify_lures_def identify_loop_eq length_matched distinct_TERMS)
     (simp add: TERMS_def)

text \<open>
  C10. The first components of the lures are the qualifying input domains themselves, as
  they were passed in: lower-casing is used for the match only. A domain with capital
  letters comes back with its capitals.
\<close>

theorem identify_lures_domain_verbatim:
  "map fst (fst (identify_lures self domains)) =
     filter (\<lambda>d. 2 \<le> length (filter (\<lambda>t. sublist t (lower d)) TERMS)) domains
   \<and> fst (identify_lures self [''PayPal-Login.AppSpot.com'', ''Apple.com'']) =
       [(''PayPal-Login.AppSpot.com'', [''login'', ''paypal''])]"
  by (simp add: identify_lures_def identify_loop_eq comp_def)
     (simp add: lower_def lower_char_def TERMS_def sublist_Cons_right prefix_Cons)

section \<open>Queries and the precomputed state\<close>

text \<open>
  C7. After any sequence of \<open>identify_lures\<close> and \<open>notify\<close> calls the object is the one
  before the calls except for \<open>TARGET_DOMAINS\<close>, which holds the argument of the last
  \<open>identify_lures\<close> call; \<open>identify_lures\<close> writes that field only and \<open>notify\<close> writes none.
\<close>

theorem queries_frame:
  "run self calls = self\<lparr>TARGET_DOMAINS := last_domains (TARGET_DOMAINS self) calls\<rparr>
   \<and> snd (identify_lures self domains) = self\<lparr>TARGET_DOMAINS := domains\<rparr>
   \<and> snd (notify self lures) = self"
proof -
  have "run self calls = self\<lparr>TARGET_DOMAINS := last_domains (TARGET_DOMAINS self) calls\<rparr>"
  proof (induction calls arbitrary: self)
    case Nil
    show ?case by simp
  next
    case (Cons c cs)
    show ?case
      by (cases c) (simp_all add: Cons.IH identify_lures_def notify_def)
  qed
  then show ?thesis by (simp add: identify_lures_def notify_def)
qed

text \<open>
  C9. Running \<open>notify(identify_lures(domains))\<close> twice in succession on the same object gives
  the same lures and the same notifications both times, and neither query's result depends
  on the value of \<open>TARGET_DOMAINS\<close>.
\<close>

theorem query_idempotent:
  "(let (lures1, s1) = identify_lures self domains;
        (out1, s2) = notify s1 lures1;
        (lures2, s3) = identify_lures s2 domains;
        (out2, s4) = notify s3 lures2
    in lures1 = lures2 \<and> out1 = out2)
   \<and> fst (identify_lures (self\<lparr>TARGET_DOMAINS := other\<rparr>) domains)
       = fst (identify_lures self domains)
   \<and> fst (notify (self\<lparr>TARGET_DOMAINS := other\<rparr>) lures) = fst (notify self lures)"
  by (simp add: identify_lures_def notify_def)

section \<open>Construction on concrete inputs\<close>

text \<open>
  C3. With B reporting to A, C reporting to B, and the subscriptions of A to cisco and of C
  to mail, construction gives B the chain {C} and C the empty chain, but no chain for A,
  who is no key of the manager map; cisco then notifies A alone, and mail notifies C.
\<close>

theorem init_example_root_has_no_chain:
  "\<exists>self. LureNotifier_init 3 [] [(''A'', [''cisco'']), (''C'', [''mail''])]
             [(''B'', ''A''), (''C'', ''B'')] = Some self
     \<and> USER_REPORTS_CHAIN_MAP self ''A'' = None
     \<and> USER_REPORTS_CHAIN_MAP self ''B'' = Some {|''C''|}
     \<and> USER_REPORTS_CHAIN_MAP self ''C'' = Some {||}
     \<and> TERM_NOTIFICATIONS_MAP self ''cisco'' = Some {|''A''|}
     \<and> TERM_NOTIFICATIONS_MAP self ''mail'' = Some {|''C''|}"
  by (simp add: LureNotifier_init_def build_user_reports_chain_map_def
      precompute_notifications_def add_notification_def dict_get_def eval_nat_numeral)

section \<open>The term-notification index\<close>

lemma dict_get_empty: "dict_get Map.empty k dflt = dflt"
  by (simp add: dict_get_def)

lemma dict_get_add_notification:
  "dict_get (add_notification ch u t tn) t' {||} =
     (if t' = t then finsert u (dict_get tn t {||}) |\<union>| dict_get ch u {||}
      else dict_get tn t' {||})"
  by (simp add: add_notification_def dict_get_def Let_def split: option.splits)

lemma dom_add_notification: "dom (add_notification ch u t tn) = insert t (dom tn)"
  by (simp add: add_notification_def Let_def)

lemma dict_get_terms_loop:
  "dict_get (terms_loop ch u ts tn) t {||} =
     (if t \<in> set ts then finsert u (dict_get ch u {||}) |\<union>| dict_get tn t {||}
      else dict_get tn t {||})"
proof (induction ts arbitrary: tn)
  case Nil
  show ?case by simp
next
  case (Cons a ts)
  show ?case
    by (simp add: Cons.IH dict_get_add_notification) blast
qed

lemma dom_terms_loop: "dom (terms_loop ch u ts tn) = dom tn \<union> set ts"
  by (induction ts arbitrary: tn) (simp_all add: dom_add_notification)


lemma subscribers_Nil: "subscribers [] t = {}"
  by (simp add: subscribers_def)

lemma subscribers_Cons:
  "subscribers ((u, ts) # subs) t =
     (if t \<in> set ts then insert u (subscribers subs t) else subscribers subs t)"
  by (auto simp: subscribers_def)

lemma notify_set_subscriptions_loop:
  "fset (dict_get (subscriptions_loop ch subs tn) t {||}) =
     fset (dict_get tn t {||}) \<union> (\<Union>u \<in> subscribers subs t. insert u (fset (dict_get ch u {||})))"
proof (induction subs arbitrary: tn)
  case Nil
  show ?case by (simp add: subscribers_Nil)
next
  case (Cons p subs)
  obtain u ts where p: "p = (u, ts)" by (cases p)
  show ?case
  proof (cases "t \<in> set ts")
    case True
    then show ?thesis
      by (simp add: p Cons.IH dict_get_terms_loop subscribers_Cons) blast
  next
    case False
    then show ?thesis
      by (simp add: p Cons.IH dict_get_terms_loop subscribers_Cons)
  qed
qed

lemma dom_subscriptions_loop:
  "dom (subscriptions_loop ch subs tn) = dom tn \<union> {t. subscribers subs t \<noteq> {}}"
proof (induction subs arbitrary: tn)
  case Nil
  show ?case by (simp add: subscribers_Nil)
next
  case (Cons p subs)
  obtain u ts where p: "p = (u, ts)" by (cases p)
  have s: "{t. subscribers (p # subs) t \<noteq> {}} = set ts \<union> {t. subscribers subs t \<noteq> {}}"
    by (auto simp: p subscribers_Cons)
  have "dom (subscriptions_loop ch (p # subs) tn) =
          dom tn \<union> set ts \<union> {t. subscribers subs t \<noteq> {}}"
    by (simp add: p Cons.IH dom_terms_loop)
  then show ?case
    unfolding s by blast
qed

lemma notify_set_precompute:
  "fset (dict_get (precompute_notifications subs ch) t {||}) =
     (\<Union>u \<in> subscribers subs t. insert u (fset (dict_get ch u {||})))"
  by (simp add: precompute_notifications_def notify_set_subscriptions_loop dict_get_empty)

lemma dom_precompute:
  "dom (precompute_notifications subs ch) = {t. subscribers subs t \<noteq> {}}"
  by (simp add: precompute_notifications_def dom_subscriptions_loop)

lemma subscribers_add_subscription:
  "subscribers (add_subscription subs u t) t' =
     (if t' = t then insert u (subscribers subs t) else subscribers subs t')"
proof (induction subs arbitrary: t')
  case Nil
  show ?case by (simp add: subscribers_Cons subscribers_Nil)
next
  case (Cons p subs)
  obtain v ts where p: "p = (v, ts)" by (cases p)
  show ?case
  proof (cases "v = u")
    case True
    then show ?thesis by (simp add: p subscribers_Cons)
  next
    case False
    then show ?thesis by (auto simp: p subscribers_Cons Cons.IH)
  qed
qed

text \<open>
  C8. With the chain map fixed, recording one more subscription of user \<open>U\<close> to term \<open>T\<close>, the
  way \<open>load_user_subscriptions\<close> records it, leaves every user of the old notify-set of \<open>T\<close>
  in the new one, and puts \<open>U\<close> there; a term with no entry counts as the empty set.
\<close>

theorem notifications_monotone:
  "dict_get (precompute_notifications S chain) T {||}
     |\<subseteq>| dict_get (precompute_notifications (add_subscription S U T) chain) T {||}
   \<and> U |\<in>| dict_get (precompute_notifications (add_subscription S U T) chain) T {||}"
proof -
  have "fset (dict_get (precompute_notifications S chain) T {||})
          \<subseteq> fset (dict_get (precompute_notifications (add_subscription S U T) chain) T {||})"
    by (simp add: notify_set_precompute subscribers_add_subscription) blast
  moreover have "U \<in> fset (dict_get (precompute_notifications (add_subscription S U T) chain) T {||})"
    by (simp add: notify_set_precompute subscribers_add_subscription)
  ultimately show ?thesis
    by (simp add: less_eq_fset.rep_eq)
qed

section \<open>Notification lookup\<close>

lemma fset_users_loop:
  "fset (users_loop tnm ts acc) = fset acc \<union> (\<Union>t \<in> set ts. fset (dict_get tnm t {||}))"
proof (induction ts arbitrary: acc)
  case Nil
  show ?case by simp
next
  case (Cons t ts)
  show ?case by (simp add: Cons.IH Un_assoc)
qed

lemma notify_loop_lookup:
  "notify_loop tnm lures dn d =
     (case map_of (rev lures) d of
        None \<Rightarrow> dn d
      | Some ts \<Rightarrow> Some (list_of_set (users_loop tnm ts {||})))"
proof (induction lures arbitrary: dn)
  case Nil
  show ?case by simp
next
  case (Cons p lures)
  obtain d0 ts0 where p: "p = (d0, ts0)" by (cases p)
  show ?case
  proof (cases "map_of (rev lures) d")
    case None
    then show ?thesis by (simp add: p Cons.IH map_add_def)
  next
    case (Some ts)
    then show ?thesis by (simp add: p Cons.IH map_add_def)
  qed
qed

lemma dom_notify_loop: "dom (notify_loop tnm lures dn) = dom dn \<union> fst ` set lures"
proof (induction lures arbitrary: dn)
  case Nil
  show ?case by simp
next
  case (Cons p lures)
  obtain d0 ts0 where p: "p = (d0, ts0)" by (cases p)
  have "dom (notify_loop tnm (p # lures) dn) =
          dom (dn(d0 \<mapsto> list_of_set (users_loop tnm ts0 {||}))) \<union> fst ` set lures"
    unfolding p notify_loop.simps Let_def by (rule Cons.IH)
  also have "\<dots> = dom dn \<union> fst ` set (p # lures)"
    unfolding dom_fun_upd by (simp add: p)
  finally show ?case .
qed

text \<open>
  C6. The dict returned by \<open>notify\<close> has exactly the domains of the lure list as keys. The
  entry of a domain lists, without duplicates, the users of the notify-sets of the terms of
  the last lure given for that domain; it is the empty list when none of those terms has
  an entry in \<open>TERM_NOTIFICATIONS_MAP\<close>. A term without an entry contributes the empty set.
\<close>

theorem notify_spec:
  "dom (fst (notify self lures)) = fst ` set lures
   \<and> (\<forall>d terms. map_of (rev lures) d = Some terms \<longrightarrow>
        (\<exists>users. fst (notify self lures) d = Some users
           \<and> distinct users
           \<and> set users = (\<Union>t \<in> set terms. fset (dict_get (TERM_NOTIFICATIONS_MAP self) t {||}))
           \<and> ((\<forall>t \<in> set terms. TERM_NOTIFICATIONS_MAP self t = None) \<longrightarrow> users = [])))
   \<and> (\<forall>t. TERM_NOTIFICATIONS_MAP self t = None \<longrightarrow> dict_get (TERM_NOTIFICATIONS_MAP self) t {||} = {||})"
proof (intro conjI allI impI)
  show "dom (fst (notify self lures)) = fst ` set lures"
    by (simp add: notify_def dom_notify_loop)
next
  fix d terms
  assume last: "map_of (rev lures) d = Some terms"
  let ?users = "list_of_set (users_loop (TERM_NOTIFICATIONS_MAP self) terms {||})"
  have 1: "fst (notify self lures) d = Some ?users"
    by (simp add: notify_def notify_loop_lookup last)
  have 2: "distinct ?users"
    by (simp add: list_of_set_def sorted_list_of_fset.rep_eq)
  have 3: "set ?users = (\<Union>t \<in> set terms. fset (dict_get (TERM_NOTIFICATIONS_MAP self) t {||}))"
    by (simp add: list_of_set_def fset_users_loop)
  have 4: "(\<forall>t \<in> set terms. TERM_NOTIFICATIONS_MAP self t = None) \<longrightarrow> ?users = []"
  proof
    assume "\<forall>t \<in> set terms. TERM_NOTIFICATIONS_MAP self t = None"
    then have "set ?users = {}" unfolding 3 by (simp add: dict_get_def)
    then show "?users = []" by simp
  qed
  show "\<exists>users. fst (notify self lures) d = Some users
           \<and> distinct users
           \<and> set users = (\<Union>t \<in> set terms. fset (dict_get (TERM_NOTIFICATIONS_MAP self) t {||}))
           \<and> ((\<forall>t \<in> set terms. TERM_NOTIFICATIONS_MAP self t = None) \<longrightarrow> users = [])"
    using 1 2 3 4 by blast
next
  fix t
  assume "TERM_NOTIFICATIONS_MAP self t = None"
  then show "dict_get (TERM_NOTIFICATIONS_MAP self) t {||} = {||}"
    by (simp add: dict_get_def)
qed

theorem notify_spec_witness:
  "map_of (rev [(''ciscomail.com'', [''cisco'', ''mail'']), (''paypal-login.com'', [''login'', ''paypal''])])
       ''ciscomail.com'' = Some [''cisco'', ''mail'']
   \<and> (\<exists>users.
         fst (notify \<lparr> TARGET_DOMAINS = [], SUBSCRIPTIONS = [], USER_TO_MANAGER_DICT = [],
                        USER_REPORTS_CHAIN_MAP = Map.empty,
                        TERM_NOTIFICATIONS_MAP = [''cisco'' \<mapsto> {|''A'', ''B''|}, ''mail'' \<mapsto> {|''B''|}] \<rparr>
                [(''ciscomail.com'', [''cisco'', ''mail'']), (''paypal-login.com'', [''login'', ''paypal''])])
             ''ciscomail.com'' = Some users
         \<and> distinct users \<and> set users = {''A'', ''B''})
   \<and> fst (notify \<lparr> TARGET_DOMAINS = [], SUBSCRIPTIONS = [], USER_TO_MANAGER_DICT = [],
                      USER_REPORTS_CHAIN_MAP = Map.empty,
                      TERM_NOTIFICATIONS_MAP = [''cisco'' \<mapsto> {|''A'', ''B''|}, ''mail'' \<mapsto> {|''B''|}] \<rparr>
              [(''ciscomail.com'', [''cisco'', ''mail'']), (''paypal-login.com'', [''login'', ''paypal''])])
          ''paypal-login.com'' = Some []"
proof -
  let ?L = "[(''ciscomail.com'', [''cisco'', ''mail'']), (''paypal-login.com'', [''login'', ''paypal''])]"
  let ?S = "\<lparr> TARGET_DOMAINS = [], SUBSCRIPTIONS = [], USER_TO_MANAGER_DICT = [],
              USER_REPORTS_CHAIN_MAP = Map.empty,
              TERM_NOTIFICATIONS_MAP = [''cisco'' \<mapsto> {|''A'', ''B''|}, ''mail'' \<mapsto> {|''B''|}] \<rparr>"
  note spec = notify_spec [of ?S ?L]
  have h1: "map_of (rev ?L) ''ciscomail.com'' = Some [''cisco'', ''mail'']"
    by simp
  have h2: "map_of (rev ?L) ''paypal-login.com'' = Some [''login'', ''paypal'']"
    by simp
  have h3: "\<forall>t \<in> set [''login'', ''paypal'']. TERM_NOTIFICATIONS_MAP ?S t = None"
    by simp
  from spec h1 obtain users where
    u: "fst (notify ?S ?L) ''ciscomail.com'' = Some users" "distinct users"
       "set users = (\<Union>t \<in> set [''cisco'', ''mail'']. fset (dict_get (TERM_NOTIFICATIONS_MAP ?S) t {||}))"
    by blast
  have "set users = {''A'', ''B''}"
    unfolding u(3) by (auto simp: dict_get_def)
  moreover from spec h2 h3 have "fst (notify ?S ?L) ''paypal-login.com'' = Some []"
    by blast
  ultimately show ?thesis
    using h1 u(1,2) by blast
qed

section \<open>Termination of the construction\<close>

lemma reports_below_keys: "reports_below items u \<subseteq> fst ` set items"
proof
  fix v
  assume "v \<in> reports_below items u"
  then have "(v, u) \<in> (set items)\<^sup>+"
    by (simp add: reports_below_def)
  then obtain w where "(v, w) \<in> set items"
    by (auto elim: converse_tranclE)
  then show "v \<in> fst ` set items"
    by force
qed

lemma finite_reports_below: "finite (reports_below items u)"
  by (rule finite_subset [OF reports_below_keys]) simp

lemma card_reports_below: "card (reports_below items u) \<le> length items"
proof -
  have "card (reports_below items u) \<le> card (fst ` set items)"
    by (rule card_mono [OF _ reports_below_keys]) simp
  also have "\<dots> \<le> card (set items)"
    by (rule card_image_le) simp
  also have "\<dots> \<le> length items"
    by (rule card_length)
  finally show ?thesis .
qed

lemma reports_below_direct:
  assumes "acyclic (set items)" and "(u, uid) \<in> set items"
  shows "card (reports_below items u) < card (reports_below items uid)"
proof (rule psubset_card_mono [OF finite_reports_below])
  have sub: "reports_below items u \<subseteq> reports_below items uid"
    using assms(2) by (auto simp: reports_below_def intro: trancl_into_trancl)
  have "u \<in> reports_below items uid"
    using assms(2) by (simp add: reports_below_def)
  moreover have "u \<notin> reports_below items u"
    using assms(1) by (simp add: reports_below_def acyclic_def)
  ultimately show "reports_below items u \<subset> reports_below items uid"
    using sub by blast
qed

lemma gather_loop_total:
  assumes sub: "\<And>u mm. (u, uid) \<in> set rest \<Longrightarrow> gather_subordinates fuel items mm u \<noteq> None"
  shows "gather_loop fuel items rest uid subs mm \<noteq> None"
  using sub
proof (induction rest arbitrary: subs mm)
  case Nil
  show ?case by simp
next
  case (Cons p rest)
  obtain u m where p: "p = (u, m)" by (cases p)
  have rest: "\<And>s mm'. gather_loop fuel items rest uid s mm' \<noteq> None"
    by (rule Cons.IH) (rule Cons.prems, simp)
  show ?case
  proof (cases "m = uid")
    case True
    have "gather_subordinates fuel items mm u \<noteq> None"
      by (rule Cons.prems) (simp add: p True)
    then obtain below m' where g: "gather_subordinates fuel items mm u = Some (below, m')"
      by (cases "gather_subordinates fuel items mm u") auto
    show ?thesis
      using rest [of "finsert u subs |\<union>| below" m'] by (simp add: p True g)
  next
    case False
    show ?thesis
      using rest [of subs mm] by (simp add: p False)
  qed
qed

lemma gather_subordinates_total:
  assumes "acyclic (set items)"
  shows "card (reports_below items uid) < fuel
           \<Longrightarrow> gather_subordinates fuel items mm uid \<noteq> None"
proof (induction fuel arbitrary: uid mm)
  case 0
  then show ?case by simp
next
  case (Suc k)
  have "gather_loop k items items uid {||} mm \<noteq> None"
  proof (rule gather_loop_total)
    fix u mm'
    assume "(u, uid) \<in> set items"
    then have "card (reports_below items u) < k"
      using reports_below_direct [OF assms, of u uid] Suc.prems by simp
    then show "gather_subordinates k items mm' u \<noteq> None"
      by (rule Suc.IH)
  qed
  then show ?case
    by (auto split: option.splits)
qed

lemma build_loop_total:
  assumes "acyclic (set items)" and "length items < fuel"
  shows "build_loop fuel items users mm \<noteq> None"
proof (induction users arbitrary: mm)
  case Nil
  show ?case by simp
next
  case (Cons u users)
  have "card (reports_below items u) < fuel"
    using card_reports_below [of items u] assms(2) by simp
  then have "gather_subordinates fuel items mm u \<noteq> None"
    by (rule gather_subordinates_total [OF assms(1)])
  then obtain below m' where g: "gather_subordinates fuel items mm u = Some (below, m')"
    by (cases "gather_subordinates fuel items mm u") auto
  show ?case
    using Cons.IH [of m'] by (simp add: g)
qed

text \<open>
  C5. On an acyclic manager map the construction returns an object, and
  \<open>gather_subordinates\<close> returns from any memo table and for any user, as soon as the call
  stack may grow deeper than the manager map has entries.
\<close>

theorem construction_terminates:
  assumes "acyclic (set team_hierarchy)" and "length team_hierarchy < fuel"
  shows "(\<exists>self. LureNotifier_init fuel domains subscriptions team_hierarchy = Some self)
         \<and> (\<exists>result. gather_subordinates fuel team_hierarchy memo user_id = Some result)"
proof
  have "build_loop fuel team_hierarchy (map fst team_hierarchy) Map.empty \<noteq> None"
    by (rule build_loop_total [OF assms])
  then show "\<exists>self. LureNotifier_init fuel domains subscriptions team_hierarchy = Some self"
    by (auto simp: LureNotifier_init_def build_user_reports_chain_map_def split: option.splits)
next
  have "card (reports_below team_hierarchy user_id) < fuel"
    using card_reports_below [of team_hierarchy user_id] assms(2) by simp
  then have "gather_subordinates fuel team_hierarchy memo user_id \<noteq> None"
    by (rule gather_subordinates_total [OF assms(1)])
  then show "\<exists>result. gather_subordinates fuel team_hierarchy memo user_id = Some result"
    by blast
qed

text \<open>On the cyclic map where A and B report to each other no depth of stack is enough.\<close>

lemma cyclic_example_gather:
  "gather_subordinates fuel [(''A'', ''B''), (''B'', ''A'')] Map.empty ''A'' = None
   \<and> gather_subordinates fuel [(''A'', ''B''), (''B'', ''A'')] Map.empty ''B'' = None"
  by (induction fuel) simp_all

lemma cyclic_example_never_returns:
  "LureNotifier_init fuel domains subscriptions [(''A'', ''B''), (''B'', ''A'')] = None"
  using cyclic_example_gather [of fuel]
  by (simp add: LureNotifier_init_def build_user_reports_chain_map_def)

theorem construction_terminates_witness:
  "acyclic (set [(''B'', ''A''), (''C'', ''B'')])
   \<and> length [(''B'', ''A''), (''C'', ''B'')] < (3::nat)
   \<and> (\<exists>self. LureNotifier_init 3 [] [(''A'', [''cisco''])] [(''B'', ''A''), (''C'', ''B'')] = Some self)
   \<and> (\<exists>result. gather_subordinates 3 [(''B'', ''A''), (''C'', ''B'')] Map.empty ''A'' = Some result)"
proof -
  have h1: "acyclic (set [(''B'', ''A''), (''C'', ''B'')])"
  proof (rule acyclicI_order [where f = "\<lambda>u. if u = ''A'' then 0 else if u = ''B'' then 1 else (2::nat)"])
    fix a b
    assume "(a, b) \<in> set [(''B'', ''A''), (''C'', ''B'')]"
    then show "(if b = ''A'' then 0 else if b = ''B'' then 1 else (2::nat))
                 < (if a = ''A'' then 0 else if a = ''B'' then 1 else 2)"
      by auto
  qed
  have h2: "length [(''B'', ''A''), (''C'', ''B'')] < (3::nat)"
    by simp
  show ?thesis
    using h1 h2 construction_terminates [OF h1 h2, of "[]" "[(''A'', [''cisco''])]" Map.empty "''A''"]
    by blast
qed

section \<open>Contents of the reporting-chain map\<close>

lemma reports_via_Nil: "reports_via items [] uid = {}"
  by (simp add: reports_via_def)

lemma reports_via_Cons:
  "reports_via items ((u, m) # rest) uid =
     (if m = uid then insert u (reports_below items u) \<union> reports_via items rest uid
      else reports_via items rest uid)"
  unfolding reports_via_def by (cases "m = uid") auto

lemma reports_below_unfold: "reports_below items uid = reports_via items items uid"
proof (rule set_eqI)
  fix v
  show "v \<in> reports_below items uid \<longleftrightarrow> v \<in> reports_via items items uid"
  proof
    assume "v \<in> reports_below items uid"
    then have "(v, uid) \<in> (set items)\<^sup>+"
      by (simp add: reports_below_def)
    then show "v \<in> reports_via items items uid"
    proof (cases rule: tranclE)
      case base
      then show ?thesis
        unfolding reports_via_def by blast
    next
      case (step c)
      then show ?thesis
        unfolding reports_via_def reports_below_def by blast
    qed
  next
    assume "v \<in> reports_via items items uid"
    then obtain u where u: "(u, uid) \<in> set items" "v = u \<or> (v, u) \<in> (set items)\<^sup>+"
      unfolding reports_via_def reports_below_def by blast
    from u(2) have "(v, uid) \<in> (set items)\<^sup>+"
    proof
      assume "v = u"
      with u(1) show ?thesis by blast
    next
      assume "(v, u) \<in> (set items)\<^sup>+"
      then show ?thesis using u(1) by (rule trancl_into_trancl)
    qed
    then show "v \<in> reports_below items uid"
      by (simp add: reports_below_def)
  qed
qed

lemma memo_ok_empty: "memo_ok items Map.empty"
  by (simp add: memo_ok_def)

lemma memo_ok_update:
  "memo_ok items m \<Longrightarrow> fset s = reports_below items u \<Longrightarrow> memo_ok items (m(u \<mapsto> s))"
  by (simp add: memo_ok_def)

lemma gather_correct:
  shows "memo_ok items m \<Longrightarrow> gather_subordinates fuel items m uid = Some (s, m')
           \<Longrightarrow> fset s = reports_below items uid \<and> memo_ok items m' \<and> uid \<in> dom m'
               \<and> dom m \<subseteq> dom m' \<and> dom m' \<subseteq> dom m \<union> insert uid (fst ` set items)"
    and "memo_ok items m \<Longrightarrow> gather_loop fuel items rest uid subs m = Some (s, m')
           \<Longrightarrow> fset s = fset subs \<union> reports_via items rest uid
               \<and> memo_ok items m' \<and> dom m \<subseteq> dom m'
               \<and> dom m' \<subseteq> dom m \<union> fst ` set rest \<union> fst ` set items"
proof (induction fuel items m uid and fuel items rest uid subs m arbitrary: s m' and s m'
    rule: gather_subordinates_gather_loop.induct)
  case (1 items m uid)
  then show ?case by simp
next
  case (2 fuel items m uid)
  show ?case
  proof (cases "m uid")
    case (Some cached)
    with "2.prems"(2) have eq: "s = cached" "m' = m" by simp_all
    have "fset s = reports_below items uid"
      using "2.prems"(1) Some unfolding eq memo_ok_def by blast
    moreover have "uid \<in> dom m'"
      using Some unfolding eq by blast
    ultimately show ?thesis
      using "2.prems"(1) unfolding eq by blast
  next
    case None
    with "2.prems"(2) obtain m1 where
      loop: "gather_loop fuel items items uid {||} m = Some (s, m1)" and m': "m' = m1(uid \<mapsto> s)"
      by (auto split: option.splits)
    note ih = "2.IH" [OF None "2.prems"(1) loop]
    have ok1: "memo_ok items m1" and e1: "dom m \<subseteq> dom m1"
      and e2: "dom m1 \<subseteq> dom m \<union> fst ` set items \<union> fst ` set items"
      using ih by blast+
    have "fset s = reports_via items items uid"
      using ih by simp
    then have s: "fset s = reports_below items uid"
      by (simp only: reports_below_unfold)
    have ok: "memo_ok items m'"
      unfolding m' using ok1 s by (rule memo_ok_update)
    have dm: "dom m' = insert uid (dom m1)"
      unfolding m' by simp
    have d0: "uid \<in> dom m'"
      unfolding dm by simp
    have d1: "dom m \<subseteq> dom m'"
      unfolding dm using e1 by blast
    have d2: "dom m' \<subseteq> dom m \<union> insert uid (fst ` set items)"
      unfolding dm using e2 by blast
    show ?thesis
      using s ok d0 d1 d2 by blast
  qed
next
  case (3 fuel items uid subs m)
  then show ?case by (simp add: reports_via_Nil)
next
  case (4 fuel items user manager rest uid subs m)
  show ?case
  proof (cases "manager = uid")
    case True
    with "4.prems"(2) obtain below m1 where
      g: "gather_subordinates fuel items m user = Some (below, m1)" and
      loop: "gather_loop fuel items rest uid (finsert user subs |\<union>| below) m1 = Some (s, m')"
      by (auto split: option.splits)
    note ih1 = "4.IH"(1) [OF True "4.prems"(1) g]
    have b: "fset below = reports_below items user" and ok1: "memo_ok items m1"
      and e1: "dom m \<subseteq> dom m1" and e2: "dom m1 \<subseteq> dom m \<union> insert user (fst ` set items)"
      using ih1 by blast+
    note ih2 = "4.IH"(2) [OF True g refl ok1 loop]
    have f: "fset s = fset (finsert user subs |\<union>| below) \<union> reports_via items rest uid"
      and ok: "memo_ok items m'" and e3: "dom m1 \<subseteq> dom m'"
      and e4: "dom m' \<subseteq> dom m1 \<union> fst ` set rest \<union> fst ` set items"
      using ih2 by blast+
    have "fset s = fset subs \<union> reports_via items ((user, manager) # rest) uid"
      unfolding f reports_via_Cons using True b by (simp add: Un_ac)
    moreover have "dom m \<subseteq> dom m'"
      using e1 e3 by blast
    moreover have "dom m' \<subseteq> dom m \<union> insert user (fst ` set rest) \<union> fst ` set items"
      using e2 e4 by blast
    ultimately show ?thesis
      using ok by simp
  next
    case False
    with "4.prems"(2) have
      loop: "gather_loop fuel items rest uid subs m = Some (s, m')"
      by simp
    note ih = "4.IH"(3) [OF False "4.prems"(1) loop]
    have f: "fset s = fset subs \<union> reports_via items rest uid"
      and ok: "memo_ok items m'" and e3: "dom m \<subseteq> dom m'"
      and e4: "dom m' \<subseteq> dom m \<union> fst ` set rest \<union> fst ` set items"
      using ih by blast+
    have "fset s = fset subs \<union> reports_via items ((user, manager) # rest) uid"
      unfolding f reports_via_Cons using False by simp
    moreover have "dom m' \<subseteq> dom m \<union> insert user (fst ` set rest) \<union> fst ` set items"
      using e4 by blast
    ultimately show ?thesis
      using ok e3 by simp
  qed
qed

lemma build_loop_correct:
  "memo_ok items m \<Longrightarrow> build_loop fuel items users m = Some m'
     \<Longrightarrow> memo_ok items m' \<and> dom m' \<subseteq> dom m \<union> set users \<union> fst ` set items
         \<and> dom m \<union> set users \<subseteq> dom m'"
proof (induction users arbitrary: m)
  case Nil
  then show ?case by simp
next
  case (Cons u users)
  from Cons.prems(2) obtain below m1 where
    g: "gather_subordinates fuel items m u = Some (below, m1)" and
    rest: "build_loop fuel items users m1 = Some m'"
    by (auto split: option.splits)
  note c = gather_correct(1) [OF Cons.prems(1) g]
  have ok1: "memo_ok items m1" and c1: "u \<in> dom m1" and c2: "dom m \<subseteq> dom m1"
    and c3: "dom m1 \<subseteq> dom m \<union> insert u (fst ` set items)"
    using c by blast+
  note ih = Cons.IH [OF ok1 rest]
  have i1: "memo_ok items m'" and i2: "dom m' \<subseteq> dom m1 \<union> set users \<union> fst ` set items"
    and i3: "dom m1 \<union> set users \<subseteq> dom m'"
    using ih by blast+
  have a: "dom m' \<subseteq> dom m \<union> insert u (set users) \<union> fst ` set items"
    using c3 i2 by blast
  have b: "dom m \<union> insert u (set users) \<subseteq> dom m'"
    using c1 c2 i3 by blast
  show ?case
    using i1 a b by simp
qed

text \<open>
  Whenever the construction returns, the chain map has exactly the keys of the manager map
  as keys, and each entry is the set of all direct and transitive reports of its user.
\<close>

lemma build_user_reports_chain_map_entries:
  assumes "build_user_reports_chain_map fuel team_hierarchy = Some chain"
  shows "dom chain = fst ` set team_hierarchy"
    and "chain u = Some s \<Longrightarrow> fset s = reports_below team_hierarchy u"
proof -
  note b = build_loop_correct [OF memo_ok_empty assms [unfolded build_user_reports_chain_map_def]]
  have ok: "memo_ok team_hierarchy chain"
    using b by blast
  have "dom chain \<subseteq> fst ` set team_hierarchy" "fst ` set team_hierarchy \<subseteq> dom chain"
    using b by simp_all
  then show "dom chain = fst ` set team_hierarchy"
    by (rule subset_antisym)
  show "chain u = Some s \<Longrightarrow> fset s = reports_below team_hierarchy u"
    using ok by (simp add: memo_ok_def)
qed

lemma chain_lookup:
  assumes "build_user_reports_chain_map fuel team_hierarchy = Some chain"
  shows "fset (dict_get chain u {||}) =
           (if u \<in> fst ` set team_hierarchy then reports_below team_hierarchy u else {})"
proof (cases "chain u")
  case None
  then have "u \<notin> fst ` set team_hierarchy"
    using build_user_reports_chain_map_entries(1) [OF assms] by blast
  then show ?thesis
    using None by (simp add: dict_get_def)
next
  case (Some s)
  then have "u \<in> fst ` set team_hierarchy"
    using build_user_reports_chain_map_entries(1) [OF assms] by blast
  then show ?thesis
    using Some build_user_reports_chain_map_entries(2) [OF assms Some] by (simp add: dict_get_def)
qed

text \<open>
  The notify-set of a term after construction: every subscriber of the term, and the reports
  of those subscribers that are keys of the manager map.
\<close>

lemma term_notifications_after_init:
  assumes "LureNotifier_init fuel domains subscriptions team_hierarchy = Some self"
  shows "fset (dict_get (TERM_NOTIFICATIONS_MAP self) t {||}) =
           (\<Union>u \<in> subscribers subscriptions t.
              insert u (if u \<in> fst ` set team_hierarchy then reports_below team_hierarchy u else {}))"
    and "dom (TERM_NOTIFICATIONS_MAP self) = {t. subscribers subscriptions t \<noteq> {}}"
proof -
  from assms obtain chain where
    chain: "build_user_reports_chain_map fuel team_hierarchy = Some chain" and
    tnm: "TERM_NOTIFICATIONS_MAP self = precompute_notifications subscriptions chain"
    by (auto simp: LureNotifier_init_def split: option.splits)
  show "fset (dict_get (TERM_NOTIFICATIONS_MAP self) t {||}) =
           (\<Union>u \<in> subscribers subscriptions t.
              insert u (if u \<in> fst ` set team_hierarchy then reports_below team_hierarchy u else {}))"
    unfolding tnm notify_set_precompute chain_lookup [OF chain] ..
  show "dom (TERM_NOTIFICATIONS_MAP self) = {t. subscribers subscriptions t \<noteq> {}}"
    unfolding tnm by (rule dom_precompute)
qed

text \<open>Every user of a notify-set is a subscriber of the term or below one in the hierarchy.\<close>

lemma term_notifications_sound:
  assumes "LureNotifier_init fuel domains subscriptions team_hierarchy = Some self"
    and "v |\<in>| dict_get (TERM_NOTIFICATIONS_MAP self) t {||}"
  shows "\<exists>u \<in> subscribers subscriptions t. v = u \<or> v \<in> reports_below team_hierarchy u"
proof -
  from assms(2) have "v \<in> fset (dict_get (TERM_NOTIFICATIONS_MAP self) t {||})"
    by simp
  then obtain u where "u \<in> subscribers subscriptions t"
    "v \<in> insert u (if u \<in> fst ` set team_hierarchy then reports_below team_hierarchy u else {})"
    unfolding term_notifications_after_init(1) [OF assms(1)] by blast
  then show ?thesis
    by (cases "u \<in> fst ` set team_hierarchy") auto
qed

text \<open>
  C2. On the manager map in which B reports to A, user A appears as a value; the chain map
  that is built has no entry for A, and the empty set for B, who has no reports.
\<close>

theorem root_manager_has_no_chain:
  "\<exists>chain. build_user_reports_chain_map 2 [(''B'', ''A'')] = Some chain
     \<and> ''A'' \<in> snd ` set [(''B'', ''A'')]
     \<and> chain ''A'' = None
     \<and> chain ''B'' = Some {||}"
  by (simp add: build_user_reports_chain_map_def eval_nat_numeral)

text \<open>
  C1. With B reporting to A and A subscribed to cisco, B is below the subscriber A, yet the
  notify-set of cisco after construction is A alone.
\<close>

theorem root_subscriber_reports_not_notified:
  "\<exists>self. LureNotifier_init 2 [] [(''A'', [''cisco''])] [(''B'', ''A'')] = Some self
     \<and> ''A'' \<in> subscribers [(''A'', [''cisco''])] ''cisco''
     \<and> ''B'' \<in> reports_below [(''B'', ''A'')] ''A''
     \<and> TERM_NOTIFICATIONS_MAP self ''cisco'' = Some {|''A''|}
     \<and> ''B'' |\<notin>| dict_get (TERM_NOTIFICATIONS_MAP self) ''cisco'' {||}"
proof -
  have "''B'' \<in> reports_below [(''B'', ''A'')] ''A''"
    unfolding reports_below_def by (simp add: r_into_trancl)
  then show ?thesis
    by (simp add: LureNotifier_init_def build_user_reports_chain_map_def
        precompute_notifications_def add_notification_def dict_get_def subscribers_def
        eval_nat_numeral)
qed

end
